theory Spec2Isabelle
  imports Complex_Main
begin

section \<open>Data model\<close>

text \<open>
  The pipeline works on pandas dataframes read from SQLite tables. A dataframe is
  modelled as the list of its rows, in row order; the row labels (the index) play no
  part in the code that is modelled and are left out.

  A timestamp column after \<^verbatim>\<open>pd.to_datetime\<close> is a totally ordered instant; it is
  modelled as an integer count of time units. Identifiers are strings.
\<close>

type_synonym timestamp = int

text \<open>A row of the query on \<^verbatim>\<open>conversions\<close> in \<^verbatim>\<open>build_journeys\<close>, with the
  \<^verbatim>\<open>conv_date\<close> column that the optional WHERE clause compares.\<close>

record conversion =
  c_conv_id :: string
  c_user_id :: string
  c_conv_date :: string
  c_timestamp :: timestamp

text \<open>A row of the query on \<^verbatim>\<open>session_sources\<close>.\<close>

record session_source =
  s_session_id :: string
  s_user_id :: string
  s_timestamp :: timestamp
  s_channel_name :: string
  s_holder_engagement :: int
  s_closer_engagement :: int
  s_impression_interaction :: int

text \<open>A row of the customer journeys dataframe, with the columns in the order
  \<^verbatim>\<open>build_journeys\<close> selects them. The timestamp is the formatted string.\<close>

record journey_row =
  conversion_id :: string
  session_id :: string
  timestamp :: string
  channel_label :: string
  holder_engagement :: int
  closer_engagement :: int
  conversion :: int
  impression_interaction :: int

section \<open>Journey builder (cj\_builder.py)\<close>

text \<open>Python truthiness of an \<^verbatim>\<open>Optional[str]\<close>: \<^verbatim>\<open>None\<close> and the empty string
  are false.\<close>

fun truthy :: "string option \<Rightarrow> bool" where
  "truthy None = False"
| "truthy (Some s) = (s \<noteq> [])"

text \<open>SQLite compares TEXT values byte by byte; a proper prefix is smaller.\<close>

fun str_le :: "string \<Rightarrow> string \<Rightarrow> bool" where
  "str_le [] ys = True"
| "str_le (x # xs) [] = False"
| "str_le (x # xs) (y # ys) =
     ((of_char x :: nat) < of_char y \<or> (x = y \<and> str_le xs ys))"

text \<open>The conversion query: every row of the table, restricted by
  \<^verbatim>\<open>conv_date >= start_date\<close> and \<^verbatim>\<open>conv_date <= end_date\<close> for each bound that is
  given and non-empty. The bounds are taken to be dates in the documented format
  YYYY-MM-DD; the source pastes them into the SQL text, so a bound holding a quote would
  change or break the query, which is not modelled.\<close>

fun date_filter :: "string option \<Rightarrow> (string \<Rightarrow> bool) \<Rightarrow> bool" where
  "date_filter None cmp = True"
| "date_filter (Some d) cmp = (if truthy (Some d) then cmp d else True)"

definition conversions_df ::
  "string option \<Rightarrow> string option \<Rightarrow> conversion list \<Rightarrow> conversion list" where
  "conversions_df start_date end_date convs =
     filter (\<lambda>c. date_filter start_date (\<lambda>d. str_le d (c_conv_date c))
                \<and> date_filter end_date (\<lambda>d. str_le (c_conv_date c) d)) convs"

text \<open>The two boolean-mask selections of the loop body: the sessions of the
  conversion's user, then those at or before the conversion's timestamp. A mask
  selection keeps the rows in the order of the dataframe.\<close>

definition user_sessions :: "conversion \<Rightarrow> session_source list \<Rightarrow> session_source list" where
  "user_sessions c session_sources_df =
     filter (\<lambda>s. s_timestamp s \<le> c_timestamp c)
       (filter (\<lambda>s. s_user_id s = c_user_id c) session_sources_df)"

text \<open>One row of \<^verbatim>\<open>journey_data\<close>: the \<^verbatim>\<open>conversion\<close> column is set to 0, the
  \<^verbatim>\<open>conversion_id\<close> column to the conversion's id, \<^verbatim>\<open>channel_name\<close> is renamed, and
  the timestamp is formatted by \<^verbatim>\<open>strftime\<close>, a parameter of the model.\<close>

definition journey_of :: "(timestamp \<Rightarrow> string) \<Rightarrow> conversion \<Rightarrow> session_source \<Rightarrow> journey_row" where
  "journey_of strftime c s =
     \<lparr> conversion_id = c_conv_id c,
       session_id = s_session_id s,
       timestamp = strftime (s_timestamp s),
       channel_label = s_channel_name s,
       holder_engagement = s_holder_engagement s,
       closer_engagement = s_closer_engagement s,
       conversion = 0,
       impression_interaction = s_impression_interaction s \<rparr>"

text \<open>The loop over the conversions: a conversion with a non-empty selection appends its
  journey to \<^verbatim>\<open>all_journeys\<close>, any other conversion appends nothing.\<close>

fun all_journeys ::
  "(timestamp \<Rightarrow> string) \<Rightarrow> conversion list \<Rightarrow> session_source list \<Rightarrow> journey_row list list" where
  "all_journeys strftime [] session_sources_df = []"
| "all_journeys strftime (c # cs) session_sources_df =
     (let us = user_sessions c session_sources_df in
      if us \<noteq> []
      then map (journey_of strftime c) us # all_journeys strftime cs session_sources_df
      else all_journeys strftime cs session_sources_df)"

text \<open>\<^verbatim>\<open>pd.concat\<close> of the collected journeys, or the empty dataframe.\<close>

definition build_journeys ::
  "(timestamp \<Rightarrow> string) \<Rightarrow> string option \<Rightarrow> string option
     \<Rightarrow> conversion list \<Rightarrow> session_source list \<Rightarrow> journey_row list" where
  "build_journeys strftime start_date end_date convs session_sources_df =
     (let js = all_journeys strftime (conversions_df start_date end_date convs) session_sources_df in
      if js \<noteq> [] then concat js else [])"

text \<open>The rows of one conversion inside a journeys dataframe, as selected by
  \<^verbatim>\<open>journeys_df[journeys_df['conversion_id'] == conv_id]\<close>.\<close>

definition single_conv_df :: "string \<Rightarrow> journey_row list \<Rightarrow> journey_row list" where
  "single_conv_df conv_id journeys_df = filter (\<lambda>r. conversion_id r = conv_id) journeys_df"

section \<open>Attribution client (api\_client.py)\<close>

text \<open>The exceptions that the modelled code can raise and does not catch.\<close>

datatype py_error = KeyError | ZeroDivisionError | ValueError

record config =
  max_journeys_per_request :: int
  max_sessions_per_request :: int

text \<open>
  An item of the \<^verbatim>\<open>value\<close> array of the service's answer: a JSON object that may or
  may not have each of the three keys the code reads (\<open>None\<close>: the key is missing).
  Weights are Python floats in the source; the model computes with exact rationals, so
  rounding is not represented: results can differ in the last digits, and a sum within
  rounding of the tolerance 0.0001 around 1 can fall on the other side of the test. The
  evaluations below use weights and sums (0, 1, 0.3 + 0.3) on which both agree.
\<close>

record ihc_result =
  r_conversion_id :: "string option"
  r_session_id :: "string option"
  r_ihc :: "rat option"

text \<open>
  What \<^verbatim>\<open>requests.post\<close> and \<^verbatim>\<open>response.json()\<close> can give: an exception of the
  transport, or a status code with a body that is not JSON, is JSON but not an object
  (so it has no \<^verbatim>\<open>get\<close>), or is an object whose \<^verbatim>\<open>value\<close> key is absent or holds
  an array of items.
\<close>

datatype json_body = Not_json | Not_object | Object "ihc_result list option"

datatype http_response = Transport_error | Http int json_body

text \<open>The scoring service is external: it is a parameter, a function of the number of
  calls made before and of the request body.\<close>

type_synonym api = "nat \<Rightarrow> journey_row list \<Rightarrow> http_response"

text \<open>A row of the table \<^verbatim>\<open>attribution_customer_journey\<close>.\<close>

record weight_row =
  conv_id :: string
  w_session_id :: string
  ihc :: rat

text \<open>What the run does that an observer can see: the requests posted and the messages
  printed that the properties below speak about.\<close>

datatype event =
    Request "journey_row list"
  | Error_status int
  | Error_sending
  | Skipping string nat
  | Wrote nat
  | Step_build_journeys
  | Saved_csv "journey_row list"
  | No_journeys_found
  | No_journeys_cannot_continue
  | Step_send_to_api
  | No_records_written
  | Step_generate_report
  | Pipeline_completed

record state =
  table :: "weight_row list"
  calls :: nat
  log :: "event list"

definition emit :: "event \<Rightarrow> state \<Rightarrow> state" where
  "emit e st = st\<lparr>log := log st @ [e]\<rparr>"

text \<open>\<^verbatim>\<open>send_journeys_to_api\<close>: one POST; every failure inside the \<^verbatim>\<open>try\<close> block is
  printed and gives \<^verbatim>\<open>None\<close>; a 200 answer gives \<^verbatim>\<open>results.get('value', [])\<close>
  as it is.\<close>

definition send_journeys_to_api ::
  "api \<Rightarrow> journey_row list \<Rightarrow> state \<Rightarrow> ihc_result list option \<times> state" where
  "send_journeys_to_api service journey_data st =
     (let st1 = emit (Request journey_data) (st\<lparr>calls := calls st + 1\<rparr>) in
      case service (calls st) journey_data of
        Transport_error \<Rightarrow> (None, emit Error_sending st1)
      | Http status_code body \<Rightarrow>
          if status_code \<noteq> 200 then (None, emit (Error_status status_code) st1)
          else (case body of
                  Not_json \<Rightarrow> (None, emit Error_sending st1)
                | Not_object \<Rightarrow> (None, emit Error_sending st1)
                | Object None \<Rightarrow> (Some [], st1)
                | Object (Some v) \<Rightarrow> (Some v, st1)))"

text \<open>The dictionary \<^verbatim>\<open>conversions\<close> of \<^verbatim>\<open>validate_ihc_results\<close>, as an association
  list in insertion order (the order a Python dict iterates in).\<close>

type_synonym conversions = "(string \<times> ihc_result list) list"

definition append_result :: "string \<Rightarrow> ihc_result \<Rightarrow> conversions \<Rightarrow> conversions" where
  "append_result cid result convs =
     (let convs1 = (if cid \<notin> set (map fst convs) then convs @ [(cid, [])] else convs) in
      map (\<lambda>(k, v). if k = cid then (k, v @ [result]) else (k, v)) convs1)"

fun group_results :: "ihc_result list \<Rightarrow> conversions \<Rightarrow> py_error + conversions" where
  "group_results [] convs = Inr convs"
| "group_results (result # rest) convs =
     (case r_conversion_id result of
        None \<Rightarrow> Inl KeyError
      | Some cid \<Rightarrow> group_results rest (append_result cid result convs))"

text \<open>\<^verbatim>\<open>sum(session['ihc'] for session in sessions)\<close>: a left fold from 0.\<close>

fun sum_ihc :: "rat \<Rightarrow> ihc_result list \<Rightarrow> py_error + rat" where
  "sum_ihc acc [] = Inr acc"
| "sum_ihc acc (session # rest) =
     (case r_ihc session of
        None \<Rightarrow> Inl KeyError
      | Some x \<Rightarrow> sum_ihc (acc + x) rest)"

text \<open>The normalising loop: \<^verbatim>\<open>session['ihc'] = session['ihc'] / ihc_sum\<close>; Python's
  division raises when the divisor is zero.\<close>

fun normalize :: "rat \<Rightarrow> ihc_result list \<Rightarrow> py_error + ihc_result list" where
  "normalize ihc_sum [] = Inr []"
| "normalize ihc_sum (session # rest) =
     (case r_ihc session of
        None \<Rightarrow> Inl KeyError
      | Some x \<Rightarrow>
          if ihc_sum = 0 then Inl ZeroDivisionError
          else (case normalize ihc_sum rest of
                  Inl e \<Rightarrow> Inl e
                | Inr rest' \<Rightarrow> Inr (session\<lparr>r_ihc := Some (x / ihc_sum)\<rparr> # rest')))"

fun process_groups :: "conversions \<Rightarrow> ihc_result list \<Rightarrow> py_error + ihc_result list" where
  "process_groups [] validated_results = Inr validated_results"
| "process_groups ((cid, sessions) # rest) validated_results =
     (case sum_ihc 0 sessions of
        Inl e \<Rightarrow> Inl e
      | Inr ihc_sum \<Rightarrow>
          (case (if \<bar>ihc_sum - 1\<bar> > 1 / 10000 then normalize ihc_sum sessions else Inr sessions) of
             Inl e \<Rightarrow> Inl e
           | Inr sessions' \<Rightarrow> process_groups rest (validated_results @ sessions')))"

definition validate_ihc_results :: "ihc_result list \<Rightarrow> py_error + ihc_result list" where
  "validate_ihc_results ihc_results =
     (if ihc_results = [] then Inr []
      else (case group_results ihc_results [] of
              Inl e \<Rightarrow> Inl e
            | Inr convs \<Rightarrow> process_groups convs []))"

text \<open>The rows built at the start of \<^verbatim>\<open>write_ihc_to_db\<close>; each of the three lookups
  raises on a missing key.\<close>

fun db_rows :: "ihc_result list \<Rightarrow> py_error + weight_row list" where
  "db_rows [] = Inr []"
| "db_rows (result # rest) =
     (case (r_conversion_id result, r_session_id result, r_ihc result) of
        (Some c, Some s, Some w) \<Rightarrow>
          (case db_rows rest of
             Inl e \<Rightarrow> Inl e
           | Inr rows \<Rightarrow> Inr (\<lparr>conv_id = c, w_session_id = s, ihc = w\<rparr> # rows))
      | _ \<Rightarrow> Inl KeyError)"

text \<open>\<^verbatim>\<open>write_ihc_to_db\<close>: nothing for an empty list; otherwise
  \<^verbatim>\<open>DELETE FROM attribution_customer_journey\<close>, then one INSERT per row. Errors of the
  database itself (a value that SQLite cannot bind, a missing table) are not modelled:
  the DELETE is committed before the inserts, so such an error would leave the table
  empty.\<close>

definition write_ihc_to_db :: "ihc_result list \<Rightarrow> state \<Rightarrow> py_error + (nat \<times> state)" where
  "write_ihc_to_db ihc_results st =
     (if ihc_results = [] then Inr (0, st)
      else (case db_rows ihc_results of
              Inl e \<Rightarrow> Inl e
            | Inr rows \<Rightarrow>
                (let st1 = st\<lparr>table := []\<rparr>;
                     st2 = st1\<lparr>table := table st1 @ rows\<rparr>
                 in Inr (length rows, st2))))"

text \<open>\<^verbatim>\<open>Series.unique()\<close>: the distinct values in order of first appearance.\<close>

fun unique :: "'a list \<Rightarrow> 'a list" where
  "unique [] = []"
| "unique (x # xs) = x # unique (filter (\<lambda>y. y \<noteq> x) xs)"

text \<open>The slices \<^verbatim>\<open>xs[i:i+n]\<close> for \<^verbatim>\<open>i\<close> in \<^verbatim>\<open>range(0, len(xs), n)\<close>, for a
  positive step.\<close>

function chunks :: "nat \<Rightarrow> 'a list \<Rightarrow> 'a list list" where
  "chunks n xs = (if n = 0 \<or> xs = [] then [] else take n xs # chunks n (drop n xs))"
  by pat_completeness auto
termination
  by (relation "measure (\<lambda>(n, xs). length xs)") auto

declare chunks.simps [simp del]

text \<open>The same five statements follow the request in both branches of the loop of
  \<^verbatim>\<open>process_journeys\<close>: send, and if the answer is truthy validate, write and report
  the count. The result is \<open>None\<close> when nothing was written.\<close>

definition send_validate_write ::
  "api \<Rightarrow> journey_row list \<Rightarrow> state \<Rightarrow> (py_error + nat option) \<times> state" where
  "send_validate_write service journey_data st =
     (case send_journeys_to_api service journey_data st of
        (None, st1) \<Rightarrow> (Inr None, st1)
      | (Some results, st1) \<Rightarrow>
          if results = [] then (Inr None, st1)
          else (case validate_ihc_results results of
                  Inl e \<Rightarrow> (Inl e, st1)
                | Inr validated_results \<Rightarrow>
                    (case write_ihc_to_db validated_results st1 of
                       Inl e \<Rightarrow> (Inl e, st1)
                     | Inr (records, st2) \<Rightarrow> (Inr (Some records), emit (Wrote records) st2))))"

text \<open>The inner loop over the conversions of a chunk that exceeds the session limit. The
  pair is \<^verbatim>\<open>(total_processed, total_records)\<close>.\<close>

fun process_individually ::
  "config \<Rightarrow> api \<Rightarrow> journey_row list \<Rightarrow> string list \<Rightarrow> nat \<times> nat \<Rightarrow> state
     \<Rightarrow> (py_error + nat \<times> nat) \<times> state" where
  "process_individually cfg service journeys_df [] totals st = (Inr totals, st)"
| "process_individually cfg service journeys_df (cid # rest) (total_processed, total_records) st =
     (let df1 = single_conv_df cid journeys_df;
          num_sessions = length df1
      in if int num_sessions > max_sessions_per_request cfg
         then process_individually cfg service journeys_df rest (total_processed, total_records)
                (emit (Skipping cid num_sessions) st)
         else (case send_validate_write service df1 st of
                 (Inl e, st1) \<Rightarrow> (Inl e, st1)
               | (Inr None, st1) \<Rightarrow>
                   process_individually cfg service journeys_df rest
                     (total_processed, total_records) st1
               | (Inr (Some records), st1) \<Rightarrow>
                   process_individually cfg service journeys_df rest
                     (total_processed + 1, total_records + records) st1))"

text \<open>The outer loop over the chunks of conversion ids.\<close>

fun process_chunks ::
  "config \<Rightarrow> api \<Rightarrow> journey_row list \<Rightarrow> string list list \<Rightarrow> nat \<times> nat \<Rightarrow> state
     \<Rightarrow> (py_error + nat \<times> nat) \<times> state" where
  "process_chunks cfg service journeys_df [] totals st = (Inr totals, st)"
| "process_chunks cfg service journeys_df (conversion_chunk # rest) (total_processed, total_records) st =
     (let journey_chunk_df = filter (\<lambda>r. conversion_id r \<in> set conversion_chunk) journeys_df
      in if int (length journey_chunk_df) > max_sessions_per_request cfg
         then (case process_individually cfg service journeys_df conversion_chunk
                      (total_processed, total_records) st of
                 (Inl e, st1) \<Rightarrow> (Inl e, st1)
               | (Inr totals, st1) \<Rightarrow> process_chunks cfg service journeys_df rest totals st1)
         else (case send_validate_write service journey_chunk_df st of
                 (Inl e, st1) \<Rightarrow> (Inl e, st1)
               | (Inr None, st1) \<Rightarrow>
                   process_chunks cfg service journeys_df rest (total_processed, total_records) st1
               | (Inr (Some records), st1) \<Rightarrow>
                   process_chunks cfg service journeys_df rest
                     (total_processed + length conversion_chunk, total_records + records) st1))"

text \<open>\<^verbatim>\<open>process_journeys\<close>. \<^verbatim>\<open>range\<close> raises for a zero step and is empty for a
  negative one. The closing \<^verbatim>\<open>verify_ihc_data\<close> only reads the table and prints; the
  one-second pauses are not modelled. The result is \<^verbatim>\<open>total_records\<close>.\<close>

definition process_journeys ::
  "config \<Rightarrow> api \<Rightarrow> journey_row list \<Rightarrow> state \<Rightarrow> (py_error + nat) \<times> state" where
  "process_journeys cfg service journeys_df st =
     (if journeys_df = [] then (Inr 0, st)
      else (let unique_conversions = unique (map conversion_id journeys_df) in
            if max_journeys_per_request cfg = 0 then (Inl ValueError, st)
            else if max_journeys_per_request cfg < 0 then (Inr 0, st)
            else (case process_chunks cfg service journeys_df
                         (chunks (nat (max_journeys_per_request cfg)) unique_conversions) (0, 0) st of
                    (Inl e, st1) \<Rightarrow> (Inl e, st1)
                  | (Inr (total_processed, total_records), st1) \<Rightarrow> (Inr total_records, st1))))"

section \<open>Pipeline orchestrator (pipeline.py)\<close>





section \<open>Notions used by the properties\<close>

text \<open>The condition under which \<^verbatim>\<open>build_journeys\<close> is meant to select a session for a
  conversion: same user, not later than the conversion.\<close>

definition qualifies :: "conversion \<Rightarrow> session_source \<Rightarrow> bool" where
  "qualifies c s = (s_user_id s = c_user_id c \<and> s_timestamp s \<le> c_timestamp c)"

text \<open>An event accounts for a journey when it is a request whose body has rows of that
  conversion, or the message that the conversion is skipped.\<close>

fun accounts_for :: "string \<Rightarrow> event \<Rightarrow> bool" where
  "accounts_for cid (Request body) = (cid \<in> conversion_id ` set body)"
| "accounts_for cid (Skipping c n) = (c = cid)"
| "accounts_for cid _ = False"

text \<open>The events that \<^verbatim>\<open>process_journeys\<close> itself can cause, and among them the two
  that decide what happens to a journey.\<close>

fun client_event :: "event \<Rightarrow> bool" where
  "client_event (Request body) = True"
| "client_event (Error_status code) = True"
| "client_event Error_sending = True"
| "client_event (Skipping c n) = True"
| "client_event (Wrote n) = True"
| "client_event _ = False"

fun is_action :: "event \<Rightarrow> bool" where
  "is_action (Request body) = True"
| "is_action (Skipping c n) = True"
| "is_action _ = False"

text \<open>
  The partition that the two loops of \<^verbatim>\<open>process_journeys\<close> compute, read off the
  loops without the calls to the service: it depends on the journeys and the limits
  only. It is used to describe the runs, which follow it until they end or an exception
  stops them.
\<close>

definition plan_individually :: "config \<Rightarrow> journey_row list \<Rightarrow> string list \<Rightarrow> event list" where
  "plan_individually cfg journeys_df cids =
     map (\<lambda>cid. let df1 = single_conv_df cid journeys_df in
                 if int (length df1) > max_sessions_per_request cfg
                 then Skipping cid (length df1) else Request df1) cids"

definition plan_chunk :: "config \<Rightarrow> journey_row list \<Rightarrow> string list \<Rightarrow> event list" where
  "plan_chunk cfg journeys_df conversion_chunk =
     (let journey_chunk_df = filter (\<lambda>r. conversion_id r \<in> set conversion_chunk) journeys_df in
      if int (length journey_chunk_df) > max_sessions_per_request cfg
      then plan_individually cfg journeys_df conversion_chunk
      else [Request journey_chunk_df])"

definition plan :: "config \<Rightarrow> journey_row list \<Rightarrow> string list list \<Rightarrow> event list" where
  "plan cfg journeys_df cs = concat (map (plan_chunk cfg journeys_df) cs)"

text \<open>A run with events \<open>evs\<close> follows a partition \<open>p\<close>: it causes client events
  only, its requests and skips are an initial part of \<open>p\<close>, and all of \<open>p\<close> when the
  run has finished.\<close>

definition follows :: "event list \<Rightarrow> bool \<Rightarrow> event list \<Rightarrow> bool" where
  "follows p finished evs =
     ((\<forall>e \<in> set evs. client_event e)
      \<and> (\<exists>rest. p = filter is_action evs @ rest)
      \<and> (finished \<longrightarrow> filter is_action evs = p))"

text \<open>The rows of one conversion in an answer or in a validated list, and the sum of
  their weights.\<close>

definition results_of :: "string \<Rightarrow> ihc_result list \<Rightarrow> ihc_result list" where
  "results_of cid rs = filter (\<lambda>r. r_conversion_id r = Some cid) rs"

fun weight :: "ihc_result \<Rightarrow> rat" where
  "weight r = (case r_ihc r of Some x \<Rightarrow> x | None \<Rightarrow> 0)"

definition weight_sum :: "ihc_result list \<Rightarrow> rat" where
  "weight_sum rs = sum_list (map weight rs)"

definition rescale :: "rat \<Rightarrow> ihc_result \<Rightarrow> ihc_result" where
  "rescale s r = r\<lparr>r_ihc := Some (weight r / s)\<rparr>"

text \<open>What \<^verbatim>\<open>validate_ihc_results\<close> does to the rows of one conversion whose sum is
  not zero.\<close>

definition processed :: "ihc_result list \<Rightarrow> ihc_result list" where
  "processed v = (if \<bar>weight_sum v - 1\<bar> > 1 / 10000 then map (rescale (weight_sum v)) v else v)"

section \<open>Example data\<close>

definition conv :: "string \<Rightarrow> string \<Rightarrow> string \<Rightarrow> timestamp \<Rightarrow> conversion" where
  "conv cid uid d t = \<lparr>c_conv_id = cid, c_user_id = uid, c_conv_date = d, c_timestamp = t\<rparr>"

definition sess :: "string \<Rightarrow> string \<Rightarrow> timestamp \<Rightarrow> session_source" where
  "sess sid uid t =
     \<lparr>s_session_id = sid, s_user_id = uid, s_timestamp = t, s_channel_name = ''Email'',
      s_holder_engagement = 1, s_closer_engagement = 0, s_impression_interaction = 0\<rparr>"

text \<open>A formatting function for the three instants of the examples.\<close>

definition strftime3 :: "timestamp \<Rightarrow> string" where
  "strftime3 t =
     (if t = 1 then ''2023-01-01 10:00:00''
      else if t = 2 then ''2023-01-02 10:00:00''
      else ''2023-01-03 10:00:00'')"

definition jrow :: "string \<Rightarrow> string \<Rightarrow> string \<Rightarrow> journey_row" where
  "jrow cid sid t =
     \<lparr>conversion_id = cid, session_id = sid, timestamp = t, channel_label = ''Email'',
      holder_engagement = 1, closer_engagement = 0, conversion = 0,
      impression_interaction = 0\<rparr>"

definition res :: "string \<Rightarrow> string \<Rightarrow> rat \<Rightarrow> ihc_result" where
  "res cid sid w = \<lparr>r_conversion_id = Some cid, r_session_id = Some sid, r_ihc = Some w\<rparr>"

definition limits :: "int \<Rightarrow> int \<Rightarrow> config" where
  "limits j s = \<lparr>max_journeys_per_request = j, max_sessions_per_request = s\<rparr>"

definition fresh :: state where
  "fresh = \<lparr>table = [], calls = 0, log = []\<rparr>"

text \<open>A service that answers every request with weight 1 for each row it was sent.\<close>

definition service_ones :: api where
  "service_ones k body =
     Http 200 (Object (Some (map (\<lambda>r. res (conversion_id r) (session_id r) 1) body)))"

text \<open>A service whose first answer is an item without the \<^verbatim>\<open>conversion_id\<close> key.\<close>

definition service_missing_key :: api where
  "service_missing_key k body =
     (if k = 0
      then Http 200 (Object (Some [\<lparr>r_conversion_id = None, r_session_id = Some ''S1'',
                                     r_ihc = Some 1\<rparr>]))
      else service_ones k body)"

text \<open>A service that fails on the first call and answers the later ones.\<close>

definition service_first_down :: api where
  "service_first_down k body = (if k = 0 then Http 503 Not_json else service_ones k body)"

text \<open>A service that answers every request with weight 0 for each row it was sent.\<close>

definition service_zeros :: api where
  "service_zeros k body =
     Http 200 (Object (Some (map (\<lambda>r. res (conversion_id r) (session_id r) 0) body)))"

text \<open>A service that cannot be reached.\<close>

definition service_down :: api where
  "service_down k body = Transport_error"

text \<open>Scenario C: three journeys with 2, 2 and 1 touchpoints.\<close>

definition journeys_C :: "journey_row list" where
  "journeys_C =
     [jrow ''J1'' ''S1'' ''2023-01-01 10:00:00'', jrow ''J1'' ''S2'' ''2023-01-02 10:00:00'',
      jrow ''J2'' ''S3'' ''2023-01-01 10:00:00'', jrow ''J2'' ''S4'' ''2023-01-02 10:00:00'',
      jrow ''J3'' ''S5'' ''2023-01-01 10:00:00'']"

section \<open>Properties of the journey builder\<close>

lemma concat_all_journeys:
  "concat (all_journeys f cs ss) = concat (map (\<lambda>c. map (journey_of f c) (user_sessions c ss)) cs)"
  by (induction cs) (simp_all add: Let_def)

lemma build_journeys_concat:
  "build_journeys f sd ed convs ss =
     concat (map (\<lambda>c. map (journey_of f c) (user_sessions c ss)) (conversions_df sd ed convs))"
  by (simp add: build_journeys_def Let_def concat_all_journeys [symmetric])

lemma user_sessions_filter: "user_sessions c ss = filter (qualifies c) ss"
  by (induction ss) (auto simp: user_sessions_def qualifies_def)

lemma conversion_id_journey_of [simp]: "conversion_id (journey_of f c s) = c_conv_id c"
  by (simp add: journey_of_def)

lemma conversion_journey_of [simp]: "conversion (journey_of f c s) = 0"
  by (simp add: journey_of_def)

lemma single_conv_concat:
  "distinct (map c_conv_id cs) \<Longrightarrow> c \<in> set cs \<Longrightarrow>
   single_conv_df (c_conv_id c) (concat (map (\<lambda>c. map (journey_of f c) (g c)) cs))
     = map (journey_of f c) (g c)"
proof (induction cs)
  case Nil
  then show ?case by simp
next
  case (Cons a cs)
  have other: "single_conv_df (c_conv_id c) (map (journey_of f a) (g a)) = []"
    if "c_conv_id a \<noteq> c_conv_id c"
    using that by (simp add: single_conv_df_def filter_empty_conv)
  have none: "single_conv_df (c_conv_id a) (concat (map (\<lambda>c. map (journey_of f c) (g c)) cs)) = []"
  proof -
    have "c_conv_id y \<noteq> c_conv_id a" if "y \<in> set cs" for y
    proof
      assume "c_conv_id y = c_conv_id a"
      then have "c_conv_id a \<in> c_conv_id ` set cs" using that by (metis imageI)
      then show False using Cons.prems(1) by simp
    qed
    then show ?thesis
      by (auto simp: single_conv_df_def filter_empty_conv)
  qed
  have same: "single_conv_df (c_conv_id a) (map (journey_of f a) (g a)) = map (journey_of f a) (g a)"
    by (simp add: single_conv_df_def)
  show ?case
  proof (cases "c = a")
    case True
    then show ?thesis using none same by (simp add: single_conv_df_def)
  next
    case False
    with Cons.prems have "c \<in> set cs" "c_conv_id a \<noteq> c_conv_id c" by auto
    with Cons show ?thesis using other by (simp add: single_conv_df_def)
  qed
qed

lemma sorted_filter_ts: "sorted (map s_timestamp ss) \<Longrightarrow> sorted (map s_timestamp (filter P ss))"
  by (induction ss) auto

text \<open>
  C3, as the code has it. \<^verbatim>\<open>build_journeys\<close> never sorts: with conversion ids unique,
  the journey of a conversion is the list of its qualifying session records in the order
  in which \<^verbatim>\<open>session_sources_df\<close> holds them. The journey is therefore ascending by
  \<^verbatim>\<open>occurred_at\<close> whenever the session records are read in ascending order.
\<close>

theorem journey_keeps_record_order:
  assumes "c \<in> set (conversions_df sd ed convs)"
    and "distinct (map c_conv_id (conversions_df sd ed convs))"
  shows "single_conv_df (c_conv_id c) (build_journeys f sd ed convs ss)
           = map (journey_of f c) (filter (qualifies c) ss)
         \<and> (sorted (map s_timestamp ss) \<longrightarrow>
              sorted (map s_timestamp (filter (qualifies c) ss)))"
  using assms
  by (simp add: build_journeys_concat single_conv_concat user_sessions_filter sorted_filter_ts)

text \<open>Scenario A with the session records read in the order t1, t2, t3: the journey of
  C1 is the rows of S1 and S2, in that order.\<close>

theorem journey_keeps_record_order_witness:
  "single_conv_df ''C1'' (build_journeys strftime3 None None [conv ''C1'' ''U1'' ''2023-01-02'' 2]
       [sess ''S1'' ''U1'' 1, sess ''S2'' ''U1'' 2, sess ''S3'' ''U1'' 3])
     = [jrow ''C1'' ''S1'' ''2023-01-01 10:00:00'', jrow ''C1'' ''S2'' ''2023-01-02 10:00:00'']"
  using journey_keeps_record_order [of "conv ''C1'' ''U1'' ''2023-01-02'' 2" None None
      "[conv ''C1'' ''U1'' ''2023-01-02'' 2]" strftime3
      "[sess ''S1'' ''U1'' 1, sess ''S2'' ''U1'' 2, sess ''S3'' ''U1'' 3]"]
  by (simp add: conversions_df_def conv_def sess_def qualifies_def journey_of_def jrow_def
      strftime3_def)

text \<open>The same scenario with the record of S2 read before the record of S1: the journey
  lists the touchpoint at t2 before the touchpoint at t1.\<close>

theorem journey_not_sorted_counterexample:
  "single_conv_df ''C1'' (build_journeys strftime3 None None [conv ''C1'' ''U1'' ''2023-01-02'' 2]
       [sess ''S2'' ''U1'' 2, sess ''S1'' ''U1'' 1, sess ''S3'' ''U1'' 3])
     = [jrow ''C1'' ''S2'' ''2023-01-02 10:00:00'', jrow ''C1'' ''S1'' ''2023-01-01 10:00:00'']
   \<and> s_timestamp (sess ''S1'' ''U1'' 1) < s_timestamp (sess ''S2'' ''U1'' 2)"
  by (simp add: build_journeys_def conversions_df_def conv_def sess_def user_sessions_def
      journey_of_def jrow_def strftime3_def single_conv_df_def)

text \<open>
  C6. Every row of the journeys dataframe comes from a conversion of the query and a
  session record of the same user whose timestamp is not later than the conversion's;
  and a conversion id all of whose conversions have no such session has no rows.
\<close>

theorem journey_touchpoints_qualify:
  "(\<forall>r \<in> set (build_journeys f sd ed convs ss).
      \<exists>c \<in> set (conversions_df sd ed convs). \<exists>s \<in> set ss.
         r = journey_of f c s \<and> s_user_id s = c_user_id c \<and> s_timestamp s \<le> c_timestamp c)
   \<and> (\<forall>cid. (\<forall>c \<in> set (conversions_df sd ed convs). c_conv_id c = cid \<longrightarrow>
                 \<not> (\<exists>s \<in> set ss. s_user_id s = c_user_id c \<and> s_timestamp s \<le> c_timestamp c))
          \<longrightarrow> single_conv_df cid (build_journeys f sd ed convs ss) = [])"
  by (auto simp: build_journeys_concat user_sessions_def single_conv_df_def filter_empty_conv)

text \<open>Conversion C3 of user U2 at t1 has only a later session (S9 at t3) and the sessions
  of another user: it has no journey rows, while C1 of user U1 has its two.\<close>

theorem journey_touchpoints_qualify_witness:
  "single_conv_df ''C3''
     (build_journeys strftime3 None None
        [conv ''C1'' ''U1'' ''2023-01-02'' 2, conv ''C3'' ''U2'' ''2023-01-01'' 1]
        [sess ''S1'' ''U1'' 1, sess ''S2'' ''U1'' 2, sess ''S3'' ''U1'' 3, sess ''S9'' ''U2'' 3]) = []
   \<and> length (build_journeys strftime3 None None
        [conv ''C1'' ''U1'' ''2023-01-02'' 2, conv ''C3'' ''U2'' ''2023-01-01'' 1]
        [sess ''S1'' ''U1'' 1, sess ''S2'' ''U1'' 2, sess ''S3'' ''U1'' 3, sess ''S9'' ''U2'' 3]) = 2"
  using journey_touchpoints_qualify [of strftime3 None None
      "[conv ''C1'' ''U1'' ''2023-01-02'' 2, conv ''C3'' ''U2'' ''2023-01-01'' 1]"
      "[sess ''S1'' ''U1'' 1, sess ''S2'' ''U1'' 2, sess ''S3'' ''U1'' 3, sess ''S9'' ''U2'' 3]"]
  by (simp add: build_journeys_def conversions_df_def conv_def sess_def user_sessions_def
      single_conv_df_def)

section \<open>Properties of the submission loop\<close>

lemma log_emit [simp]: "log (emit e st) = log st @ [e]"
  and table_emit [simp]: "table (emit e st) = table st"
  and calls_emit [simp]: "calls (emit e st) = calls st"
  by (simp_all add: emit_def)

lemma follows_Nil [simp]: "follows [] b []"
  by (simp add: follows_def)

lemma follows_append:
  "follows p1 True evs1 \<Longrightarrow> follows p2 b evs2 \<Longrightarrow> follows (p1 @ p2) b (evs1 @ evs2)"
  by (auto simp: follows_def)

lemma follows_stop: "follows p1 b evs1 \<Longrightarrow> follows (p1 @ p2) False evs1"
  by (auto simp: follows_def)

lemma follows_single: "is_action a \<Longrightarrow> client_event a \<Longrightarrow> follows [a] b [a]"
  by (simp add: follows_def)

lemma send_journeys_to_api_log:
  assumes "send_journeys_to_api service d st = (r, st1)"
  shows "\<exists>evs. log st1 = log st @ evs \<and> follows [Request d] True evs \<and> table st1 = table st"
  using assms
  by (auto simp: send_journeys_to_api_def Let_def follows_def
      split: http_response.splits json_body.splits option.splits if_splits)

lemma write_ihc_to_db_log:
  "write_ihc_to_db v st = Inr (n, st2) \<Longrightarrow> log st2 = log st"
  by (auto simp: write_ihc_to_db_def Let_def split: if_splits sum.splits)

lemma send_validate_write_log:
  assumes "send_validate_write service d st = (r, st1)"
  shows "\<exists>evs. log st1 = log st @ evs \<and> follows [Request d] True evs"
proof -
  obtain r0 st0 where s: "send_journeys_to_api service d st = (r0, st0)"
    by (cases "send_journeys_to_api service d st")
  from send_journeys_to_api_log [OF s] obtain evs0 where
    e0: "log st0 = log st @ evs0" "follows [Request d] True evs0"
    by blast
  from assms s have "log st1 = log st0 \<or> (\<exists>n. log st1 = log st0 @ [Wrote n])"
    by (auto simp: send_validate_write_def split: option.splits if_splits sum.splits
        dest: write_ihc_to_db_log)
  then show ?thesis
  proof
    assume "log st1 = log st0"
    with e0 show ?thesis by auto
  next
    assume "\<exists>n. log st1 = log st0 @ [Wrote n]"
    then obtain n where "log st1 = log st @ (evs0 @ [Wrote n])" using e0 by auto
    moreover have "follows [Request d] True (evs0 @ [Wrote n])"
      using e0(2) by (auto simp: follows_def)
    ultimately show ?thesis by blast
  qed
qed

lemma plan_individually_Cons:
  "plan_individually cfg df (cid # rest) =
     (if int (length (single_conv_df cid df)) > max_sessions_per_request cfg
      then Skipping cid (length (single_conv_df cid df))
      else Request (single_conv_df cid df)) # plan_individually cfg df rest"
  by (simp add: plan_individually_def Let_def)

lemma process_individually_log:
  "process_individually cfg service df cids totals st = (r, st') \<Longrightarrow>
   \<exists>evs. log st' = log st @ evs \<and> follows (plan_individually cfg df cids) (\<not> isl r) evs"
proof (induction cfg service df cids totals st arbitrary: r st' rule: process_individually.induct)
  case (1 cfg service df totals st)
  then show ?case by (auto simp: plan_individually_def)
next
  case (2 cfg service df cid rest tp tr st)
  let ?d = "single_conv_df cid df"
  show ?case
  proof (cases "int (length ?d) > max_sessions_per_request cfg")
    case True
    with "2.prems" have run: "process_individually cfg service df rest (tp, tr)
         (emit (Skipping cid (length ?d)) st) = (r, st')"
      by (simp add: Let_def)
    from "2.IH"(1) [OF refl refl True run] obtain evs where
      e: "log st' = log (emit (Skipping cid (length ?d)) st) @ evs"
         "follows (plan_individually cfg df rest) (\<not> isl r) evs"
      by blast
    have "log st' = log st @ ([Skipping cid (length ?d)] @ evs)" using e(1) by simp
    moreover have "follows (plan_individually cfg df (cid # rest)) (\<not> isl r)
         ([Skipping cid (length ?d)] @ evs)"
      using follows_append [OF follows_single e(2), of "Skipping cid (length ?d)"] True
      by (simp add: plan_individually_Cons)
    ultimately show ?thesis by blast
  next
    case False
    obtain r1 st1 where s: "send_validate_write service ?d st = (r1, st1)"
      by (cases "send_validate_write service ?d st")
    from send_validate_write_log [OF s] obtain evs1 where
      e1: "log st1 = log st @ evs1" "follows [Request ?d] True evs1"
      by blast
    have head: "plan_individually cfg df (cid # rest) = [Request ?d] @ plan_individually cfg df rest"
      using False by (simp add: plan_individually_Cons)
    show ?thesis
    proof (cases r1)
      case (Inl e)
      with "2.prems" False s have "r = Inl e" "st' = st1" by (simp_all add: Let_def)
      with e1 head follows_stop [OF e1(2)] show ?thesis by auto
    next
      case (Inr w)
      have "\<exists>totals'. process_individually cfg service df rest totals' st1 = (r, st')
              \<and> (\<exists>evs. log st' = log st1 @ evs
                    \<and> follows (plan_individually cfg df rest) (\<not> isl r) evs)"
      proof (cases w)
        case None
        with "2.prems" False s Inr have run:
          "process_individually cfg service df rest (tp, tr) st1 = (r, st')"
          by (simp add: Let_def)
        from "2.IH"(2) [OF refl refl False s [symmetric] _ _ run] Inr None run
        show ?thesis by blast
      next
        case (Some records)
        with "2.prems" False s Inr have run:
          "process_individually cfg service df rest (tp + 1, tr + records) st1 = (r, st')"
          by (simp add: Let_def)
        from "2.IH"(3) [OF refl refl False s [symmetric] _ _ run] Inr Some run
        show ?thesis by blast
      qed
      then obtain evs where
        e: "log st' = log st1 @ evs" "follows (plan_individually cfg df rest) (\<not> isl r) evs"
        by blast
      have "log st' = log st @ (evs1 @ evs)" using e(1) e1(1) by simp
      moreover have "follows (plan_individually cfg df (cid # rest)) (\<not> isl r) (evs1 @ evs)"
        using follows_append [OF e1(2) e(2)] head by simp
      ultimately show ?thesis by blast
    qed
  qed
qed

lemma plan_Cons: "plan cfg df (c # cs) = plan_chunk cfg df c @ plan cfg df cs"
  by (simp add: plan_def)

lemma process_chunks_log:
  "process_chunks cfg service df cs totals st = (r, st') \<Longrightarrow>
   \<exists>evs. log st' = log st @ evs \<and> follows (plan cfg df cs) (\<not> isl r) evs"
proof (induction cfg service df cs totals st arbitrary: r st' rule: process_chunks.induct)
  case (1 cfg service df totals st)
  then show ?case by (auto simp: plan_def)
next
  case (2 cfg service df chunk rest tp tr st)
  let ?d = "filter (\<lambda>r. conversion_id r \<in> set chunk) df"
  show ?case
  proof (cases "int (length ?d) > max_sessions_per_request cfg")
    case True
    then have pc: "plan_chunk cfg df chunk = plan_individually cfg df chunk"
      by (simp add: plan_chunk_def)
    obtain r1 st1 where s: "process_individually cfg service df chunk (tp, tr) st = (r1, st1)"
      by (cases "process_individually cfg service df chunk (tp, tr) st")
    from process_individually_log [OF s] obtain evs1 where
      e1: "log st1 = log st @ evs1" "follows (plan_individually cfg df chunk) (\<not> isl r1) evs1"
      by blast
    show ?thesis
    proof (cases r1)
      case (Inl e)
      with "2.prems" True s have "r = Inl e" "st' = st1" by (simp_all add: Let_def)
      with e1 follows_stop [OF e1(2)] pc show ?thesis by (auto simp: plan_Cons)
    next
      case (Inr totals')
      with "2.prems" True s have run: "process_chunks cfg service df rest totals' st1 = (r, st')"
        by (simp add: Let_def)
      from "2.IH"(1) [OF refl True s [symmetric] _ run] Inr obtain evs where
        e: "log st' = log st1 @ evs" "follows (plan cfg df rest) (\<not> isl r) evs"
        by blast
      have "log st' = log st @ (evs1 @ evs)" using e(1) e1(1) by simp
      moreover have "follows (plan cfg df (chunk # rest)) (\<not> isl r) (evs1 @ evs)"
        using follows_append [OF _ e(2), of "plan_individually cfg df chunk" evs1] e1(2) Inr pc
        by (simp add: plan_Cons)
      ultimately show ?thesis by blast
    qed
  next
    case False
    then have pc: "plan_chunk cfg df chunk = [Request ?d]"
      by (simp add: plan_chunk_def)
    obtain r1 st1 where s: "send_validate_write service ?d st = (r1, st1)"
      by (cases "send_validate_write service ?d st")
    from send_validate_write_log [OF s] obtain evs1 where
      e1: "log st1 = log st @ evs1" "follows [Request ?d] True evs1"
      by blast
    show ?thesis
    proof (cases r1)
      case (Inl e)
      with "2.prems" False s have "r = Inl e" "st' = st1" by (simp_all add: Let_def)
      with e1 follows_stop [OF e1(2)] pc show ?thesis by (auto simp: plan_Cons)
    next
      case (Inr w)
      have "\<exists>evs. log st' = log st1 @ evs \<and> follows (plan cfg df rest) (\<not> isl r) evs"
      proof (cases w)
        case None
        with "2.prems" False s Inr have run:
          "process_chunks cfg service df rest (tp, tr) st1 = (r, st')"
          by (simp add: Let_def)
        from "2.IH"(2) [OF refl False s [symmetric] _ _ run] Inr None
        show ?thesis by blast
      next
        case (Some records)
        with "2.prems" False s Inr have run:
          "process_chunks cfg service df rest (tp + length chunk, tr + records) st1 = (r, st')"
          by (simp add: Let_def)
        from "2.IH"(3) [OF refl False s [symmetric] _ _ run] Inr Some
        show ?thesis by blast
      qed
      then obtain evs where
        e: "log st' = log st1 @ evs" "follows (plan cfg df rest) (\<not> isl r) evs"
        by blast
      have "log st' = log st @ (evs1 @ evs)" using e(1) e1(1) by simp
      moreover have "follows (plan cfg df (chunk # rest)) (\<not> isl r) (evs1 @ evs)"
        using follows_append [OF e1(2) e(2)] pc by (simp add: plan_Cons)
      ultimately show ?thesis by blast
    qed
  qed
qed

lemma chunks_Nil [simp]: "chunks n [] = []"
  by (subst chunks.simps) simp

lemma process_journeys_log:
  assumes "0 < max_journeys_per_request cfg"
    and "process_journeys cfg service df st = (r, st')"
  shows "\<exists>evs. log st' = log st @ evs
     \<and> follows (plan cfg df (chunks (nat (max_journeys_per_request cfg))
                  (unique (map conversion_id df)))) (\<not> isl r) evs"
proof (cases "df = []")
  case True
  with assms show ?thesis by (simp add: process_journeys_def plan_def)
next
  case False
  let ?cs = "chunks (nat (max_journeys_per_request cfg)) (unique (map conversion_id df))"
  obtain r1 st1 where s: "process_chunks cfg service df ?cs (0, 0) st = (r1, st1)"
    by (cases "process_chunks cfg service df ?cs (0, 0) st")
  from process_chunks_log [OF s] obtain evs where
    e: "log st1 = log st @ evs" "follows (plan cfg df ?cs) (\<not> isl r1) evs"
    by blast
  from assms False s have "st' = st1" "isl r = isl r1"
    by (auto simp: process_journeys_def Let_def split: sum.splits prod.splits)
  with e show ?thesis by auto
qed

lemma set_unique [simp]: "set (unique xs) = set xs"
  by (induction xs rule: unique.induct) auto

lemma distinct_unique [simp]: "distinct (unique xs)"
  by (induction xs rule: unique.induct) auto

lemma concat_chunks: "0 < n \<Longrightarrow> concat (chunks n xs) = xs"
proof (induction n xs rule: chunks.induct)
  case (1 n xs)
  then show ?case by (subst chunks.simps) auto
qed

lemma length_chunk: "c \<in> set (chunks n xs) \<Longrightarrow> length c \<le> n"
proof (induction n xs rule: chunks.induct)
  case (1 n xs)
  from "1.prems" show ?case
    by (subst (asm) chunks.simps) (auto split: if_splits dest: "1.IH" [rotated])
qed

lemma ids_single_conv: "conversion_id ` set (single_conv_df cid df) \<subseteq> {cid}"
  by (auto simp: single_conv_df_def)

lemma single_conv_idem: "single_conv_df cid (single_conv_df cid df) = single_conv_df cid df"
  by (simp add: single_conv_df_def)

lemma single_conv_chunk:
  "cid \<in> set chunk \<Longrightarrow>
   single_conv_df cid (filter (\<lambda>r. conversion_id r \<in> set chunk) df) = single_conv_df cid df"
  by (auto simp: single_conv_df_def intro: filter_cong)

lemma plan_chunk_request:
  assumes "Request b \<in> set (plan_chunk cfg df chunk)"
  shows "int (length b) \<le> max_sessions_per_request cfg \<and> conversion_id ` set b \<subseteq> set chunk
       \<and> set b \<subseteq> set df
       \<and> (\<forall>cid \<in> conversion_id ` set b. single_conv_df cid b = single_conv_df cid df)"
proof (cases "int (length (filter (\<lambda>r. conversion_id r \<in> set chunk) df)) > max_sessions_per_request cfg")
  case True
  with assms obtain cid where c: "cid \<in> set chunk" "b = single_conv_df cid df"
    "\<not> int (length (single_conv_df cid df)) > max_sessions_per_request cfg"
    by (auto simp: plan_chunk_def plan_individually_def Let_def split: if_splits)
  have "set b \<subseteq> set df" using c(2) by (auto simp: single_conv_df_def)
  moreover have "conversion_id ` set b \<subseteq> set chunk" using c(1,2) ids_single_conv [of cid df] by auto
  moreover have "\<forall>k \<in> conversion_id ` set b. single_conv_df k b = single_conv_df k df"
    using c(2) ids_single_conv [of cid df] single_conv_idem [of cid df] by auto
  ultimately show ?thesis using c(2,3) by simp
next
  case False
  with assms have b: "b = filter (\<lambda>r. conversion_id r \<in> set chunk) df"
    by (simp add: plan_chunk_def)
  have "\<forall>k \<in> conversion_id ` set b. single_conv_df k b = single_conv_df k df"
    unfolding b by (auto simp: single_conv_chunk)
  then show ?thesis using False b by auto
qed

lemma plan_chunk_skipping:
  "Skipping cid n \<in> set (plan_chunk cfg df chunk) \<Longrightarrow>
   n = length (single_conv_df cid df) \<and> int n > max_sessions_per_request cfg"
  by (auto simp: plan_chunk_def plan_individually_def Let_def split: if_splits)

lemma count_distinct:
  "distinct xs \<Longrightarrow> length (filter (\<lambda>x. x = a) xs) = (if a \<in> set xs then 1 else 0)"
  by (induction xs) auto

lemma plan_chunk_accounts:
  assumes "distinct chunk" and "set chunk \<subseteq> conversion_id ` set df"
  shows "length (filter (accounts_for cid) (plan_chunk cfg df chunk))
           = (if cid \<in> set chunk then 1 else 0)"
proof (cases "int (length (filter (\<lambda>r. conversion_id r \<in> set chunk) df)) > max_sessions_per_request cfg")
  case True
  have each: "accounts_for cid
        (let df1 = single_conv_df c df in
         if int (length df1) > max_sessions_per_request cfg
         then Skipping c (length df1) else Request df1) \<longleftrightarrow> c = cid"
    if "c \<in> set chunk" for c
  proof -
    from that assms(2) obtain r where "r \<in> set df" "conversion_id r = c" by auto
    then have "c \<in> conversion_id ` set (single_conv_df c df)"
      by (auto simp: single_conv_df_def)
    then show ?thesis using ids_single_conv [of c df] by (auto simp: Let_def)
  qed
  have "filter (accounts_for cid) (plan_individually cfg df chunk)
          = map (\<lambda>c. let df1 = single_conv_df c df in
                 if int (length df1) > max_sessions_per_request cfg
                 then Skipping c (length df1) else Request df1) (filter (\<lambda>c. c = cid) chunk)"
    using each unfolding plan_individually_def
  proof (induction chunk)
    case Nil
    then show ?case by simp
  next
    case (Cons a chunk)
    then show ?case by (cases "a = cid") simp_all
  qed
  then have "length (filter (accounts_for cid) (plan_individually cfg df chunk))
          = length (filter (\<lambda>c. c = cid) chunk)"
    by simp
  then show ?thesis using True count_distinct [OF assms(1), of cid]
    by (simp add: plan_chunk_def)
next
  case False
  have "cid \<in> conversion_id ` set (filter (\<lambda>r. conversion_id r \<in> set chunk) df) \<longleftrightarrow> cid \<in> set chunk"
    using assms(2) by auto
  with False show ?thesis by (simp add: plan_chunk_def)
qed

lemma plan_accounts:
  assumes "distinct (concat cs)" and "set (concat cs) \<subseteq> conversion_id ` set df"
  shows "length (filter (accounts_for cid) (plan cfg df cs))
           = (if cid \<in> set (concat cs) then 1 else 0)"
  using assms
proof (induction cs)
  case Nil
  then show ?case by (simp add: plan_def)
next
  case (Cons c cs)
  have c: "length (filter (accounts_for cid) (plan_chunk cfg df c)) = (if cid \<in> set c then 1 else 0)"
    using Cons.prems by (intro plan_chunk_accounts) auto
  have cs: "length (filter (accounts_for cid) (plan cfg df cs)) = (if cid \<in> set (concat cs) then 1 else 0)"
    using Cons by auto
  have "\<not> (cid \<in> set c \<and> cid \<in> set (concat cs))" using Cons.prems(1) by auto
  with c cs show ?case by (auto simp: plan_Cons)
qed

lemma plan_request:
  assumes "Request b \<in> set (plan cfg df cs)"
  shows "int (length b) \<le> max_sessions_per_request cfg \<and> (\<exists>c \<in> set cs. conversion_id ` set b \<subseteq> set c)
   \<and> set b \<subseteq> set df
   \<and> (\<forall>cid \<in> conversion_id ` set b. single_conv_df cid b = single_conv_df cid df)"
proof -
  from assms obtain c where c: "c \<in> set cs" "Request b \<in> set (plan_chunk cfg df c)"
    by (auto simp: plan_def)
  from plan_chunk_request [OF c(2)] c(1) show ?thesis by blast
qed

lemma plan_skipping:
  assumes "Skipping cid n \<in> set (plan cfg df cs)"
  shows "n = length (single_conv_df cid df) \<and> int n > max_sessions_per_request cfg"
proof -
  from assms obtain c where "Skipping cid n \<in> set (plan_chunk cfg df c)"
    by (auto simp: plan_def)
  then show ?thesis by (rule plan_chunk_skipping)
qed

lemma accounts_is_action: "filter (accounts_for cid) (filter is_action evs) = filter (accounts_for cid) evs"
proof -
  have "accounts_for cid e \<Longrightarrow> is_action e" for e by (cases e) auto
  then show ?thesis by (auto simp: filter_filter intro: filter_cong)
qed

lemma follows_mem:
  "follows p b evs \<Longrightarrow> is_action e \<Longrightarrow> e \<in> set evs \<Longrightarrow> e \<in> set p"
  by (auto simp: follows_def)

lemma follows_count_le:
  assumes "follows p b evs"
  shows "length (filter (accounts_for cid) evs) \<le> length (filter (accounts_for cid) p)"
proof -
  from assms obtain rest where "p = filter is_action evs @ rest" by (auto simp: follows_def)
  then have "filter (accounts_for cid) p
      = filter (accounts_for cid) (filter is_action evs) @ filter (accounts_for cid) rest"
    by (simp del: filter_filter)
  then have "length (filter (accounts_for cid) p)
      = length (filter (accounts_for cid) evs) + length (filter (accounts_for cid) rest)"
    by (simp only: accounts_is_action length_append)
  then show ?thesis by simp
qed

lemma follows_count_eq:
  assumes "follows p True evs"
  shows "length (filter (accounts_for cid) evs) = length (filter (accounts_for cid) p)"
proof -
  from assms have "p = filter is_action evs" by (auto simp: follows_def)
  then show ?thesis by (simp only: accounts_is_action)
qed

text \<open>
  The partition in every run. For a positive journey limit, every request that
  \<^verbatim>\<open>process_journeys\<close> posts has rows of at most \<^verbatim>\<open>max_journeys_per_request\<close>
  conversions and at most \<^verbatim>\<open>max_sessions_per_request\<close> rows, and holds all the rows of
  each conversion it mentions; a conversion is reported as skipped only when its own
  rows exceed the session limit. No journey of the input is accounted for twice, and in
  a run that returns every journey is accounted for exactly once. Nothing is said here
  about when a run returns: a run that an exception stops has posted an initial part of
  the same partition only.
\<close>

theorem batches_within_limits_and_cover:
  assumes "0 < max_journeys_per_request cfg"
    and "process_journeys cfg service journeys_df st = (r, st')"
  shows "\<exists>evs. log st' = log st @ evs
     \<and> (\<forall>body. Request body \<in> set evs \<longrightarrow>
           int (card (conversion_id ` set body)) \<le> max_journeys_per_request cfg
         \<and> int (length body) \<le> max_sessions_per_request cfg
         \<and> (\<forall>cid \<in> conversion_id ` set body.
               single_conv_df cid body = single_conv_df cid journeys_df))
     \<and> (\<forall>cid n. Skipping cid n \<in> set evs \<longrightarrow>
           n = length (single_conv_df cid journeys_df) \<and> int n > max_sessions_per_request cfg)
     \<and> (\<forall>cid \<in> conversion_id ` set journeys_df. length (filter (accounts_for cid) evs) \<le> 1)
     \<and> (\<not> isl r \<longrightarrow>
          (\<forall>cid \<in> conversion_id ` set journeys_df. length (filter (accounts_for cid) evs) = 1))"
proof -
  let ?n = "nat (max_journeys_per_request cfg)"
  let ?cs = "chunks ?n (unique (map conversion_id journeys_df))"
  let ?p = "plan cfg journeys_df ?cs"
  from process_journeys_log [OF assms] obtain evs where
    e: "log st' = log st @ evs" "follows ?p (\<not> isl r) evs"
    by blast
  have n: "0 < ?n" using assms(1) by simp
  have cc: "concat ?cs = unique (map conversion_id journeys_df)" using n by (rule concat_chunks)
  have count: "length (filter (accounts_for cid) ?p) = (if cid \<in> conversion_id ` set journeys_df then 1 else 0)"
    for cid
    using plan_accounts [of ?cs journeys_df cid cfg] cc by simp
  have req: "int (card (conversion_id ` set body)) \<le> max_journeys_per_request cfg
         \<and> int (length body) \<le> max_sessions_per_request cfg
         \<and> (\<forall>cid \<in> conversion_id ` set body.
               single_conv_df cid body = single_conv_df cid journeys_df)"
    if "Request body \<in> set evs" for body
  proof -
    from follows_mem [OF e(2) _ that] have m: "Request body \<in> set ?p" by simp
    from plan_request [OF m] obtain c where
      c: "c \<in> set ?cs" "conversion_id ` set body \<subseteq> set c"
      and rest: "int (length body) \<le> max_sessions_per_request cfg"
        "\<forall>cid \<in> conversion_id ` set body. single_conv_df cid body = single_conv_df cid journeys_df"
      by blast
    have "card (conversion_id ` set body) \<le> card (set c)" using c(2) by (simp add: card_mono)
    also have "\<dots> \<le> length c" by (rule card_length)
    also have "\<dots> \<le> ?n" using c(1) by (rule length_chunk)
    finally have "int (card (conversion_id ` set body)) \<le> max_journeys_per_request cfg"
      using assms(1) by simp
    with rest show ?thesis by simp
  qed
  have skip: "n = length (single_conv_df cid journeys_df) \<and> int n > max_sessions_per_request cfg"
    if "Skipping cid n \<in> set evs" for cid n
    using plan_skipping [OF follows_mem [OF e(2) _ that]] by simp
  have le: "length (filter (accounts_for cid) evs) \<le> 1" if "cid \<in> conversion_id ` set journeys_df" for cid
    using follows_count_le [OF e(2), of cid] count [of cid] that by simp
  have eq: "length (filter (accounts_for cid) evs) = 1"
    if "\<not> isl r" "cid \<in> conversion_id ` set journeys_df" for cid
    using follows_count_eq [of ?p evs cid] e(2) count [of cid] that by simp
  have c1: "\<forall>body. Request body \<in> set evs \<longrightarrow>
           int (card (conversion_id ` set body)) \<le> max_journeys_per_request cfg
         \<and> int (length body) \<le> max_sessions_per_request cfg
         \<and> (\<forall>cid \<in> conversion_id ` set body.
               single_conv_df cid body = single_conv_df cid journeys_df)"
    using req by (intro allI impI)
  have c2: "\<forall>cid n. Skipping cid n \<in> set evs \<longrightarrow>
           n = length (single_conv_df cid journeys_df) \<and> int n > max_sessions_per_request cfg"
    using skip by (intro allI impI)
  have c3: "\<forall>cid \<in> conversion_id ` set journeys_df. length (filter (accounts_for cid) evs) \<le> 1"
    using le by (intro ballI)
  have c4: "\<not> isl r \<longrightarrow>
          (\<forall>cid \<in> conversion_id ` set journeys_df. length (filter (accounts_for cid) evs) = 1)"
    using eq by (intro impI ballI)
  show ?thesis
    by (rule exI [of _ evs]) (intro conjI e(1) c1 c2 c3 c4)
qed

lemmas run_defs = process_journeys_def send_validate_write_def send_journeys_to_api_def
  validate_ihc_results_def write_ihc_to_db_def append_result_def emit_def single_conv_df_def
  Let_def chunks.simps

lemmas ex_defs = journeys_C_def jrow_def res_def limits_def fresh_def service_ones_def
  service_missing_key_def service_first_down_def service_zeros_def service_down_def

text \<open>Scenario C: with at most 2 journeys and 3 touchpoints per request, the chunk of J1
  and J2 has 4 touchpoints and is sent as two requests, and J3 is sent on its own.\<close>

theorem batches_within_limits_and_cover_witness:
  "filter is_action (log (snd (process_journeys (limits 2 3) service_ones journeys_C fresh)))
     = [Request (single_conv_df ''J1'' journeys_C), Request (single_conv_df ''J2'' journeys_C),
        Request (single_conv_df ''J3'' journeys_C)]
   \<and> \<not> isl (fst (process_journeys (limits 2 3) service_ones journeys_C fresh))"
  using batches_within_limits_and_cover [of "limits 2 3" service_ones journeys_C fresh
      "fst (process_journeys (limits 2 3) service_ones journeys_C fresh)"
      "snd (process_journeys (limits 2 3) service_ones journeys_C fresh)"]
  by (simp add: run_defs ex_defs)

lemma process_journeys_requests:
  assumes "process_journeys cfg service df st = (r, st')"
  shows "\<exists>evs. log st' = log st @ evs \<and> (\<forall>body. Request body \<in> set evs \<longrightarrow> set body \<subseteq> set df)"
proof (cases "0 < max_journeys_per_request cfg")
  case True
  from process_journeys_log [OF True assms] obtain evs where
    e: "log st' = log st @ evs"
       "follows (plan cfg df (chunks (nat (max_journeys_per_request cfg))
                  (unique (map conversion_id df)))) (\<not> isl r) evs"
    by blast
  have "set body \<subseteq> set df" if "Request body \<in> set evs" for body
    using plan_request [OF follows_mem [OF e(2) _ that]] by simp
  with e(1) show ?thesis by blast
next
  case False
  with assms have "st' = st"
    by (auto simp: process_journeys_def Let_def split: if_splits)
  then show ?thesis by simp
qed

text \<open>
  C10. Every row of the journeys dataframe has \<^verbatim>\<open>conversion\<close> equal to 0, and so has
  every row of every request body that \<^verbatim>\<open>process_journeys\<close> posts for that dataframe:
  the bodies are made of rows of the dataframe, unchanged.
\<close>

theorem conversion_flag_always_zero:
  "(\<forall>row \<in> set (build_journeys f sd ed convs ss). conversion row = 0)
   \<and> (\<forall>cfg service st r st'.
        process_journeys cfg service (build_journeys f sd ed convs ss) st = (r, st') \<longrightarrow>
        (\<exists>evs. log st' = log st @ evs
           \<and> (\<forall>body. Request body \<in> set evs \<longrightarrow> (\<forall>row \<in> set body. conversion row = 0))))"
proof -
  have zero: "\<forall>row \<in> set (build_journeys f sd ed convs ss). conversion row = 0"
    by (auto simp: build_journeys_concat)
  have "\<exists>evs. log st' = log st @ evs
           \<and> (\<forall>body. Request body \<in> set evs \<longrightarrow> (\<forall>row \<in> set body. conversion row = 0))"
    if "process_journeys cfg service (build_journeys f sd ed convs ss) st = (r, st')"
    for cfg service st r st'
  proof -
    from process_journeys_requests [OF that] obtain evs where
      e: "log st' = log st @ evs"
         "\<forall>body. Request body \<in> set evs \<longrightarrow> set body \<subseteq> set (build_journeys f sd ed convs ss)"
      by blast
    have "\<forall>body. Request body \<in> set evs \<longrightarrow> (\<forall>row \<in> set body. conversion row = 0)"
      using e(2) zero by blast
    with e(1) show ?thesis by blast
  qed
  with zero show ?thesis by blast
qed

theorem conversion_flag_always_zero_witness:
  "map conversion (build_journeys strftime3 None None [conv ''C1'' ''U1'' ''2023-01-02'' 2]
       [sess ''S1'' ''U1'' 1, sess ''S2'' ''U1'' 2, sess ''S3'' ''U1'' 3]) = [0, 0]"
  using conversion_flag_always_zero [of strftime3 None None "[conv ''C1'' ''U1'' ''2023-01-02'' 2]"
      "[sess ''S1'' ''U1'' 1, sess ''S2'' ''U1'' 2, sess ''S3'' ''U1'' 3]"]
  by (simp add: build_journeys_def conversions_df_def conv_def sess_def user_sessions_def
      journey_of_def)

section \<open>Properties of the weight validator\<close>

lemma sum_ihc_ok:
  "\<forall>r \<in> set ss. r_ihc r \<noteq> None \<Longrightarrow> sum_ihc acc ss = Inr (acc + weight_sum ss)"
  by (induction ss arbitrary: acc) (auto simp: weight_sum_def)

lemma normalize_ok:
  "s \<noteq> 0 \<Longrightarrow> \<forall>r \<in> set ss. r_ihc r \<noteq> None \<Longrightarrow> normalize s ss = Inr (map (rescale s) ss)"
  by (induction ss) (auto simp: rescale_def)

lemma results_of_append [simp]:
  "results_of cid (xs @ ys) = results_of cid xs @ results_of cid ys"
  by (simp add: results_of_def)

lemma results_of_empty_iff:
  "results_of cid rs = [] \<longleftrightarrow> (\<forall>r \<in> set rs. r_conversion_id r \<noteq> Some cid)"
  by (auto simp: results_of_def filter_empty_conv)

text \<open>The invariant of the grouping loop: after the rows \<open>seen\<close>, the dictionary has one
  entry for each conversion id met, holding the rows of that id in the order met.\<close>

lemma append_result_new:
  "cid \<notin> fst ` set convs \<Longrightarrow> append_result cid r convs = convs @ [(cid, [r])]"
  by (induction convs) (auto simp: append_result_def)

lemma append_result_keys:
  "cid \<in> fst ` set convs \<Longrightarrow> map fst (append_result cid r convs) = map fst convs"
  by (induction convs) (auto simp: append_result_def)

lemma append_result_mem:
  "cid \<in> fst ` set convs \<Longrightarrow> (k, v) \<in> set (append_result cid r convs) \<Longrightarrow>
   (k \<noteq> cid \<and> (k, v) \<in> set convs) \<or> (k = cid \<and> (\<exists>v0. (k, v0) \<in> set convs \<and> v = v0 @ [r]))"
  by (auto simp: append_result_def split: if_splits)

lemma group_results_inv:
  assumes "distinct (map fst convs)"
    and "\<forall>k v. (k, v) \<in> set convs \<longrightarrow> v = results_of k seen \<and> v \<noteq> []"
    and "\<forall>r \<in> set seen. \<forall>k. r_conversion_id r = Some k \<longrightarrow> k \<in> fst ` set convs"
    and "\<forall>r \<in> set rs. r_conversion_id r \<noteq> None"
  shows "\<exists>convs'. group_results rs convs = Inr convs'
     \<and> distinct (map fst convs')
     \<and> (\<forall>k v. (k, v) \<in> set convs' \<longrightarrow> v = results_of k (seen @ rs) \<and> v \<noteq> [])
     \<and> (\<forall>r \<in> set (seen @ rs). \<forall>k. r_conversion_id r = Some k \<longrightarrow> k \<in> fst ` set convs')"
  using assms
proof (induction rs arbitrary: convs seen)
  case Nil
  then show ?case by simp
next
  case (Cons r rs)
  from Cons.prems(4) obtain cid where cid: "r_conversion_id r = Some cid" by auto
  let ?convs = "append_result cid r convs"
  have own: "results_of cid [r] = [r]" using cid by (simp add: results_of_def)
  have other: "results_of k [r] = []" if "k \<noteq> cid" for k
    using cid that by (simp add: results_of_def)
  have old: "v = results_of k seen" "v \<noteq> []" if "(k, v) \<in> set convs" for k v
    using Cons.prems(2) that by simp_all
  have d: "distinct (map fst ?convs)"
  proof (cases "cid \<in> fst ` set convs")
    case False
    then show ?thesis using Cons.prems(1) by (simp add: append_result_new)
  next
    case True
    then show ?thesis using Cons.prems(1) by (simp add: append_result_keys)
  qed
  have g: "\<forall>k v. (k, v) \<in> set ?convs \<longrightarrow> v = results_of k (seen @ [r]) \<and> v \<noteq> []"
  proof (intro allI impI)
    fix k v assume kv: "(k, v) \<in> set ?convs"
    show "v = results_of k (seen @ [r]) \<and> v \<noteq> []"
    proof (cases "cid \<in> fst ` set convs")
      case False
      have none: "results_of cid seen = []"
      proof (rule ccontr)
        assume "results_of cid seen \<noteq> []"
        then obtain x where "x \<in> set seen" "r_conversion_id x = Some cid"
          by (auto simp: results_of_empty_iff)
        with Cons.prems(3) have "cid \<in> fst ` set convs" by blast
        with False show False ..
      qed
      from kv False have "(k, v) \<in> set convs \<or> (k = cid \<and> v = [r])"
        by (auto simp: append_result_new)
      then show ?thesis
      proof
        assume m: "(k, v) \<in> set convs"
        then have "k \<in> fst ` set convs" by (metis fst_conv imageI)
        with False have "k \<noteq> cid" by auto
        with old [OF m] other show ?thesis by simp
      next
        assume "k = cid \<and> v = [r]"
        with none own show ?thesis by simp
      qed
    next
      case True
      from append_result_mem [OF True kv] show ?thesis
      proof
        assume a: "k \<noteq> cid \<and> (k, v) \<in> set convs"
        then have m: "(k, v) \<in> set convs" and ne: "k \<noteq> cid" by simp_all
        from old [OF m] other [OF ne] show ?thesis by simp
      next
        assume "k = cid \<and> (\<exists>v0. (k, v0) \<in> set convs \<and> v = v0 @ [r])"
        then obtain v0 where v0: "k = cid" "(cid, v0) \<in> set convs" "v = v0 @ [r]" by auto
        from old(1) [OF v0(2)] v0 own show ?thesis by simp
      qed
    qed
  qed
  have keys: "fst ` set convs \<subseteq> fst ` set ?convs \<and> cid \<in> fst ` set ?convs"
  proof (cases "cid \<in> fst ` set convs")
    case False
    then show ?thesis by (simp add: append_result_new) blast
  next
    case True
    have "fst ` set ?convs = fst ` set convs"
      using append_result_keys [OF True, of r] by (metis list.set_map)
    with True show ?thesis by simp
  qed
  have c: "\<forall>x \<in> set (seen @ [r]). \<forall>k. r_conversion_id x = Some k \<longrightarrow> k \<in> fst ` set ?convs"
  proof (intro ballI allI impI)
    fix x k assume x: "x \<in> set (seen @ [r])" "r_conversion_id x = Some k"
    show "k \<in> fst ` set ?convs"
    proof (cases "x = r")
      case True
      with x(2) cid keys show ?thesis by simp
    next
      case False
      with x(1) have "x \<in> set seen" by simp
      with Cons.prems(3) x(2) have "k \<in> fst ` set convs" by blast
      with keys show ?thesis by blast
    qed
  qed
  have rest: "\<forall>x \<in> set rs. r_conversion_id x \<noteq> None" using Cons.prems(4) by simp
  from Cons.IH [OF d g c rest] show ?case using cid by simp
qed

lemma process_groups_ok:
  assumes "\<forall>k v. (k, v) \<in> set convs \<longrightarrow> (\<forall>r \<in> set v. r_ihc r \<noteq> None) \<and> weight_sum v \<noteq> 0"
  shows "process_groups convs acc = Inr (acc @ concat (map (\<lambda>(k, v). processed v) convs))"
  using assms
proof (induction convs arbitrary: acc)
  case Nil
  then show ?case by simp
next
  case (Cons kv convs)
  obtain k v where kv: "kv = (k, v)" by (cases kv)
  from Cons.prems kv have v: "\<forall>r \<in> set v. r_ihc r \<noteq> None" "weight_sum v \<noteq> 0" by auto
  have s: "sum_ihc 0 v = Inr (weight_sum v)" using sum_ihc_ok [OF v(1), of 0] by simp
  have n: "(if \<bar>weight_sum v - 1\<bar> > 1 / 10000 then normalize (weight_sum v) v else Inr v)
             = Inr (processed v)"
    using normalize_ok [OF v(2) v(1)] by (simp add: processed_def)
  have "process_groups convs (acc @ processed v)
          = Inr ((acc @ processed v) @ concat (map (\<lambda>(k, v). processed v) convs))"
    using Cons.prems by (intro Cons.IH) auto
  then show ?case using kv s n by simp
qed

lemma rescale_conversion_id [simp]: "r_conversion_id (rescale s r) = r_conversion_id r"
  by (simp add: rescale_def)

lemma results_of_processed_same:
  "\<forall>r \<in> set v. r_conversion_id r = Some k \<Longrightarrow> results_of k (processed v) = processed v"
  by (auto simp: results_of_def processed_def filter_map comp_def)

lemma results_of_processed_other:
  "\<forall>r \<in> set v. r_conversion_id r = Some k \<Longrightarrow> k \<noteq> cid \<Longrightarrow> results_of cid (processed v) = []"
  by (auto simp: results_of_def processed_def filter_empty_conv)

lemma results_of_in_group: "r \<in> set (results_of k rs) \<Longrightarrow> r_conversion_id r = Some k"
  by (simp add: results_of_def)

lemma results_of_concat_processed:
  assumes "distinct (map fst convs)"
    and "\<forall>k v. (k, v) \<in> set convs \<longrightarrow> (\<forall>r \<in> set v. r_conversion_id r = Some k)"
  shows "results_of cid (concat (map (\<lambda>(k, v). processed v) convs))
           = (case map_of convs cid of None \<Rightarrow> [] | Some v \<Rightarrow> processed v)"
  using assms
proof (induction convs)
  case Nil
  then show ?case by (simp add: results_of_def)
next
  case (Cons kv convs)
  obtain k v where kv: "kv = (k, v)" by (cases kv)
  from Cons.prems kv have v: "\<forall>r \<in> set v. r_conversion_id r = Some k" by auto
  have IH: "results_of cid (concat (map (\<lambda>(k, v). processed v) convs))
           = (case map_of convs cid of None \<Rightarrow> [] | Some v \<Rightarrow> processed v)"
    using Cons.prems by (intro Cons.IH) auto
  show ?case
  proof (cases "k = cid")
    case True
    then have "map_of convs cid = None"
      using Cons.prems(1) kv by (simp add: map_of_eq_None_iff)
    with IH True kv results_of_processed_same [OF v] show ?thesis by simp
  next
    case False
    with IH kv results_of_processed_other [OF v False] show ?thesis by simp
  qed
qed

lemma weight_rescale [simp]: "weight (rescale s r) = weight r / s"
  by (simp add: rescale_def)

lemma weight_sum_rescale: "weight_sum (map (rescale s) v) = weight_sum v / s"
  by (induction v) (simp_all add: weight_sum_def add_divide_distrib del: weight.simps)

text \<open>
  The normaliser on answers it accepts, over exact rational weights. When every item
  has the keys \<^verbatim>\<open>conversion_id\<close> and \<^verbatim>\<open>ihc\<close> and no conversion of the answer has
  weights that sum to zero, \<^verbatim>\<open>validate_ihc_results\<close> returns, and for each conversion
  with sum \<open>s\<close>: if \<open>|s - 1| > 1/10000\<close> its rows come back divided by \<open>s\<close>, in the same
  order, and their new sum is 1; otherwise its rows come back unchanged. The source
  computes with floats, so at sums within rounding of the tolerance it can take the
  other branch.
\<close>

theorem normalization_per_conversion:
  assumes "\<forall>r \<in> set rs. r_conversion_id r \<noteq> None \<and> r_ihc r \<noteq> None"
    and "\<forall>cid. results_of cid rs \<noteq> [] \<longrightarrow> weight_sum (results_of cid rs) \<noteq> 0"
  shows "\<exists>out. validate_ihc_results rs = Inr out
     \<and> (\<forall>cid. (\<bar>weight_sum (results_of cid rs) - 1\<bar> > 1 / 10000 \<longrightarrow>
                 results_of cid out = map (rescale (weight_sum (results_of cid rs))) (results_of cid rs)
               \<and> (results_of cid rs \<noteq> [] \<longrightarrow> weight_sum (results_of cid out) = 1))
            \<and> (\<bar>weight_sum (results_of cid rs) - 1\<bar> \<le> 1 / 10000 \<longrightarrow>
                 results_of cid out = results_of cid rs))"
proof (cases "rs = []")
  case True
  then show ?thesis by (simp add: validate_ihc_results_def results_of_def)
next
  case False
  have ids: "\<forall>r \<in> set rs. r_conversion_id r \<noteq> None" using assms(1) by simp
  from group_results_inv [of "[]" "[]" rs] ids obtain convs where
    g: "group_results rs [] = Inr convs" "distinct (map fst convs)"
       "\<forall>k v. (k, v) \<in> set convs \<longrightarrow> v = results_of k rs \<and> v \<noteq> []"
       "\<forall>r \<in> set rs. \<forall>k. r_conversion_id r = Some k \<longrightarrow> k \<in> fst ` set convs"
    by auto
  have ok: "\<forall>k v. (k, v) \<in> set convs \<longrightarrow> (\<forall>r \<in> set v. r_ihc r \<noteq> None) \<and> weight_sum v \<noteq> 0"
  proof (intro allI impI)
    fix k v assume "(k, v) \<in> set convs"
    with g(3) have v: "v = results_of k rs" "v \<noteq> []" by auto
    have "\<forall>r \<in> set v. r_ihc r \<noteq> None" using assms(1) v(1) by (auto simp: results_of_def)
    moreover have "weight_sum v \<noteq> 0" using assms(2) v by simp
    ultimately show "(\<forall>r \<in> set v. r_ihc r \<noteq> None) \<and> weight_sum v \<noteq> 0" by simp
  qed
  let ?out = "concat (map (\<lambda>(k, v). processed v) convs)"
  have run: "validate_ihc_results rs = Inr ?out"
    using False g(1) process_groups_ok [OF ok, of "[]"] by (simp add: validate_ihc_results_def)
  have members: "\<forall>k v. (k, v) \<in> set convs \<longrightarrow> (\<forall>r \<in> set v. r_conversion_id r = Some k)"
  proof (intro allI impI ballI)
    fix k v r assume "(k, v) \<in> set convs" "r \<in> set v"
    with g(3) have "r \<in> set (results_of k rs)" by auto
    then show "r_conversion_id r = Some k" by (rule results_of_in_group)
  qed
  have group: "results_of cid ?out = processed (results_of cid rs)" for cid
  proof (cases "map_of convs cid")
    case None
    then have "cid \<notin> fst ` set convs" by (simp add: map_of_eq_None_iff)
    with g(4) have "results_of cid rs = []" by (auto simp: results_of_empty_iff)
    with None results_of_concat_processed [OF g(2) members, of cid] show ?thesis
      by (simp add: processed_def)
  next
    case (Some v)
    then have "(cid, v) \<in> set convs" by (rule map_of_SomeD)
    with g(3) have "v = results_of cid rs" by auto
    with Some results_of_concat_processed [OF g(2) members, of cid] show ?thesis by simp
  qed
  have "(\<bar>weight_sum (results_of cid rs) - 1\<bar> > 1 / 10000 \<longrightarrow>
                 results_of cid ?out = map (rescale (weight_sum (results_of cid rs))) (results_of cid rs)
               \<and> (results_of cid rs \<noteq> [] \<longrightarrow> weight_sum (results_of cid ?out) = 1))
            \<and> (\<bar>weight_sum (results_of cid rs) - 1\<bar> \<le> 1 / 10000 \<longrightarrow>
                 results_of cid ?out = results_of cid rs)" for cid
    unfolding group using assms(2) by (simp add: processed_def weight_sum_rescale)
  then have "\<forall>cid. (\<bar>weight_sum (results_of cid rs) - 1\<bar> > 1 / 10000 \<longrightarrow>
                 results_of cid ?out = map (rescale (weight_sum (results_of cid rs))) (results_of cid rs)
               \<and> (results_of cid rs \<noteq> [] \<longrightarrow> weight_sum (results_of cid ?out) = 1))
            \<and> (\<bar>weight_sum (results_of cid rs) - 1\<bar> \<le> 1 / 10000 \<longrightarrow>
                 results_of cid ?out = results_of cid rs)"
    by (rule allI)
  with run show ?thesis by (intro exI [of _ ?out] conjI)
qed

text \<open>Scenario B: the weights 0.3 and 0.3 of conversion C2 become 0.5 and 0.5.\<close>

theorem normalization_per_conversion_witness:
  "validate_ihc_results [res ''C2'' ''S1'' (3 / 10), res ''C2'' ''S2'' (3 / 10)]
     = Inr [res ''C2'' ''S1'' (1 / 2), res ''C2'' ''S2'' (1 / 2)]
   \<and> weight_sum [res ''C2'' ''S1'' (1 / 2), res ''C2'' ''S2'' (1 / 2)] = 1"
  using normalization_per_conversion [of "[res ''C2'' ''S1'' (3 / 10), res ''C2'' ''S2'' (3 / 10)]"]
  by (simp add: validate_ihc_results_def append_result_def res_def weight_sum_def)

text \<open>
  C2, evaluated. For a conversion whose weights sum to 0 the test
  \<open>|ihc_sum - 1| > 0.0001\<close> holds, so the normalising loop divides by zero:
  \<^verbatim>\<open>validate_ihc_results\<close> raises \<^verbatim>\<open>ZeroDivisionError\<close>, nothing catches it, and
  \<^verbatim>\<open>process_journeys\<close> ends with it after the first request.
\<close>

theorem zero_sum_raises:
  "validate_ihc_results [res ''C2'' ''S1'' 0, res ''C2'' ''S2'' 0] = Inl ZeroDivisionError
   \<and> fst (process_journeys (limits 1 3) service_zeros journeys_C fresh) = Inl ZeroDivisionError
   \<and> filter is_action (log (snd (process_journeys (limits 1 3) service_zeros journeys_C fresh)))
       = [Request (single_conv_df ''J1'' journeys_C)]"
  by (simp add: run_defs ex_defs)

text \<open>
  C5, evaluated. Conversion A has the weights 0.3 and 0.3, a sum that is not zero and
  not within the tolerance of 1, and conversion B of the same answer has a weight sum of
  0. Whichever comes first, \<^verbatim>\<open>validate_ihc_results\<close> raises \<^verbatim>\<open>ZeroDivisionError\<close> at
  the division for B and returns nothing: the rows of A are not given back rescaled.
\<close>

theorem zero_sum_group_blocks_others:
  "validate_ihc_results [res ''B'' ''S0'' 0, res ''A'' ''S1'' (3 / 10), res ''A'' ''S2'' (3 / 10)]
     = Inl ZeroDivisionError
   \<and> validate_ihc_results [res ''A'' ''S1'' (3 / 10), res ''A'' ''S2'' (3 / 10), res ''B'' ''S0'' 0]
     = Inl ZeroDivisionError
   \<and> weight_sum (results_of ''A''
        [res ''B'' ''S0'' 0, res ''A'' ''S1'' (3 / 10), res ''A'' ''S2'' (3 / 10)]) = 3 / 5"
  by (simp add: validate_ihc_results_def append_result_def res_def weight_sum_def results_of_def)

section \<open>Properties of a run: persistence and failures\<close>

text \<open>The failures that \<^verbatim>\<open>send_journeys_to_api\<close> catches: the request is posted, one
  error message is printed, nothing is written and the loop goes on.\<close>

lemma caught_failure_is_recoverable:
  assumes "service (calls st) d = Transport_error
         \<or> (\<exists>code body. service (calls st) d = Http code body \<and> code \<noteq> 200)
         \<or> service (calls st) d = Http 200 Not_json
         \<or> service (calls st) d = Http 200 Not_object"
  shows "\<exists>e st1. send_validate_write service d st = (Inr None, st1)
           \<and> table st1 = table st
           \<and> log st1 = log st @ [Request d, e]
           \<and> (e = Error_sending \<or> (\<exists>code. e = Error_status code))"
  using assms
  by (auto simp: send_validate_write_def send_journeys_to_api_def emit_def Let_def)

text \<open>A successful write leaves in the table the rows of its own batch only.\<close>

lemma write_replaces_table:
  assumes "write_ihc_to_db v st = Inr (n, st')" and "v \<noteq> []"
  shows "db_rows v = Inr (table st') \<and> n = length (table st')"
  using assms by (auto simp: write_ihc_to_db_def Let_def split: sum.splits)

text \<open>
  C1, evaluated. With one journey per request and a service that answers every request,
  the three batches of scenario C are written one after the other and the run returns 5
  records written; but each \<^verbatim>\<open>write_ihc_to_db\<close> begins with
  \<^verbatim>\<open>DELETE FROM attribution_customer_journey\<close>, and at the end the table holds the one
  row of the last batch only.
\<close>

theorem earlier_batches_deleted:
  "fst (process_journeys (limits 1 3) service_ones journeys_C fresh) = Inr 5
   \<and> log (snd (process_journeys (limits 1 3) service_ones journeys_C fresh))
       = [Request (single_conv_df ''J1'' journeys_C), Wrote 2,
          Request (single_conv_df ''J2'' journeys_C), Wrote 2,
          Request (single_conv_df ''J3'' journeys_C), Wrote 1]
   \<and> table (snd (process_journeys (limits 1 3) service_ones journeys_C fresh))
       = [\<lparr>conv_id = ''J3'', w_session_id = ''S5'', ihc = 1\<rparr>]"
  by (simp add: run_defs ex_defs)

text \<open>
  C7, evaluated. A 200 answer whose item lacks the key \<^verbatim>\<open>conversion_id\<close> is returned
  by \<^verbatim>\<open>send_journeys_to_api\<close> as it is; \<^verbatim>\<open>validate_ihc_results\<close> then raises
  \<^verbatim>\<open>KeyError\<close>, which ends \<^verbatim>\<open>process_journeys\<close> before the remaining two batches
  are sent. A 503 answer on the first call is printed instead, and the run goes on with
  the other two batches.
\<close>

theorem missing_key_aborts_run:
  "fst (process_journeys (limits 1 3) service_missing_key journeys_C fresh) = Inl KeyError
   \<and> log (snd (process_journeys (limits 1 3) service_missing_key journeys_C fresh))
       = [Request (single_conv_df ''J1'' journeys_C)]
   \<and> fst (process_journeys (limits 1 3) service_first_down journeys_C fresh) = Inr 3
   \<and> log (snd (process_journeys (limits 1 3) service_first_down journeys_C fresh))
       = [Request (single_conv_df ''J1'' journeys_C), Error_status 503,
          Request (single_conv_df ''J2'' journeys_C), Wrote 2,
          Request (single_conv_df ''J3'' journeys_C), Wrote 1]"
  by (simp add: run_defs ex_defs)

text \<open>
  C4, evaluated. With one journey per request and a service whose answers have weights
  that sum to 0, the first request is posted for J1 and \<^verbatim>\<open>ZeroDivisionError\<close> ends the
  run: the journeys J2 and J3, each within the session limit, are in no request and in
  no skipping message.
\<close>

theorem aborted_run_drops_journeys:
  "fst (process_journeys (limits 1 3) service_zeros journeys_C fresh) = Inl ZeroDivisionError
   \<and> log (snd (process_journeys (limits 1 3) service_zeros journeys_C fresh))
       = [Request (single_conv_df ''J1'' journeys_C)]
   \<and> filter (accounts_for ''J2'')
        (log (snd (process_journeys (limits 1 3) service_zeros journeys_C fresh))) = []
   \<and> filter (accounts_for ''J3'')
        (log (snd (process_journeys (limits 1 3) service_zeros journeys_C fresh))) = []
   \<and> ''J2'' \<in> conversion_id ` set journeys_C \<and> ''J3'' \<in> conversion_id ` set journeys_C
   \<and> length (single_conv_df ''J2'' journeys_C) = 2 \<and> length (single_conv_df ''J3'' journeys_C) = 1"
  by (simp add: run_defs ex_defs)

section \<open>Properties of the orchestrator\<close>







end
